theory Spec2Isabelle
  imports Complex_Main "HOL-Library.Multiset"
begin

section \<open>Data model of the chunked frequency analysis\<close>

text \<open>
  The engine of \<^verbatim>\<open>topvalues_in_csv.py\<close> is the method \<^verbatim>\<open>process_csv_thread\<close>
  together with \<^verbatim>\<open>generate_report\<close>, \<^verbatim>\<open>validate_top_n\<close> and
  \<^verbatim>\<open>validate_chunk_size\<close>. The window, the buttons and the log panel are left out:
  every \<^verbatim>\<open>self.root.after(0, ...)\<close> call only posts text to the window.

  A cell of a data frame is either the missing-value marker or a value.
\<close>

datatype 'v cell = NaN | Val 'v

text \<open>
  A Python \<^verbatim>\<open>dict\<close> keeps its keys in insertion order, and the report depends on that
  order, so a dictionary is an association list. \<^verbatim>\<open>d[k] = v\<close> replaces the value of
  an existing key in place and appends a new key at the end.
\<close>

fun dict_set :: "('k \<times> 'a) list \<Rightarrow> 'k \<Rightarrow> 'a \<Rightarrow> ('k \<times> 'a) list" where
  "dict_set [] k v = [(k, v)]"
| "dict_set ((k', v') # d) k v =
     (if k' = k then (k, v) # d else (k', v') # dict_set d k v)"

text \<open>A \<^verbatim>\<open>collections.Counter\<close> is a dictionary from keys to Python integers.\<close>

type_synonym 'k counter = "('k \<times> int) list"

text \<open>\<^verbatim>\<open>Counter.get(elem, 0)\<close>: the stored count, 0 for an absent key.\<close>

definition counter_get :: "'k counter \<Rightarrow> 'k \<Rightarrow> int" where
  "counter_get self elem = (case map_of self elem of None \<Rightarrow> 0 | Some c \<Rightarrow> c)"

text \<open>
  \<^verbatim>\<open>Counter.update(mapping)\<close> as CPython defines it:
  \<^verbatim>\<open>
    if self:
        self_get = self.get
        for elem, count in iterable.items():
            self[elem] = count + self_get(elem, 0)
    else:
        super().update(iterable)
  \<close>
\<close>

definition counter_update :: "'k counter \<Rightarrow> 'k counter \<Rightarrow> 'k counter" where
  "counter_update self iterable =
     (if self \<noteq> []
      then fold (\<lambda>(elem, count) s. dict_set s elem (count + counter_get s elem)) iterable self
      else fold (\<lambda>(elem, count) s. dict_set s elem count) iterable self)"

text \<open>
  \<^verbatim>\<open>Counter.most_common(n)\<close> is \<^verbatim>\<open>heapq.nlargest(n, self.items(), key=itemgetter(1))\<close>,
  documented as \<^verbatim>\<open>sorted(iterable, key=key, reverse=True)[:n]\<close>: a stable sort by
  descending count, cut after \<open>n\<close> entries (none for \<open>n \<le> 0\<close>).
\<close>

definition most_common :: "'k counter \<Rightarrow> int \<Rightarrow> 'k counter" where
  "most_common self n = take (nat n) (sort_key (\<lambda>(elem, count). - count) (self))"

subsection \<open>Data frames\<close>

text \<open>
  A chunk delivered by \<^verbatim>\<open>pd.read_csv(..., chunksize=...)\<close> is a data frame: the column
  names and the rows of cells. A row shorter than the header reads as missing cells, as
  the reader pads it.
\<close>

record 'v frame =
  columns :: "string list"
  rows :: "'v cell list list"

fun index_of :: "'a list \<Rightarrow> 'a \<Rightarrow> nat" where
  "index_of [] x = 0"
| "index_of (y # ys) x = (if y = x then 0 else Suc (index_of ys x))"

definition cell_at :: "'v cell list \<Rightarrow> nat \<Rightarrow> 'v cell" where
  "cell_at r i = (if i < length r then r ! i else NaN)"

text \<open>\<^verbatim>\<open>chunk[col]\<close>: the cells of one column, top to bottom.\<close>

definition getitem :: "'v frame \<Rightarrow> string \<Rightarrow> 'v cell list" where
  "getitem chunk col = map (\<lambda>r. cell_at r (index_of (columns chunk) col)) (rows chunk)"

text \<open>
  \<^verbatim>\<open>Series.value_counts().to_dict()\<close> with the defaults \<^verbatim>\<open>dropna=True, sort=True\<close>:
  the missing cells are dropped, the distinct values are collected in order of first
  appearance, each with its number of occurrences, and the result is sorted by
  descending count (ties keep the order of first appearance).
\<close>

definition uniques :: "'a list \<Rightarrow> 'a list" where
  "uniques xs = fold (\<lambda>x seen. if x \<in> set seen then seen else seen @ [x]) xs []"

definition value_counts :: "'v cell list \<Rightarrow> 'v cell counter" where
  "value_counts series =
     (let vals = filter (\<lambda>c. c \<noteq> NaN) series
      in sort_key (\<lambda>(elem, count). - count)
           (map (\<lambda>k. (k, int (count_list vals k))) (uniques vals)))"

subsection \<open>The chunk loop of \<^verbatim>\<open>process_csv_thread\<close>\<close>

datatype error = KeyError string | ValueError | EmptyDataError

text \<open>
  The local variables of the loop, with two counters that make its interaction with the
  outside visible: \<open>polls\<close> counts the calls of \<^verbatim>\<open>self.stop_event.is_set()\<close> made so
  far and \<open>chunks_read\<close> the chunks taken from the reader.
\<close>

record 'v state =
  value_counters :: "(string \<times> 'v cell counter) list"
  header :: "string list"
  chunk_num :: nat
  polls :: nat
  chunks_read :: nat

definition initial :: "'v state" where
  "initial = \<lparr>value_counters = [], header = [], chunk_num = 0, polls = 0, chunks_read = 0\<rparr>"

text \<open>\<^verbatim>\<open>{col: Counter() for col in header}\<close>\<close>

definition init_counters :: "string list \<Rightarrow> (string \<times> 'v cell counter) list" where
  "init_counters hdr = fold (\<lambda>col d. dict_set d col []) hdr []"

text \<open>
  \<^verbatim>\<open>
    for col in header:
        if col in chunk: value_counters[col].update(chunk[col].value_counts().to_dict())
  \<close>
  The subscript \<^verbatim>\<open>value_counters[col]\<close> raises \<^verbatim>\<open>KeyError\<close> for an absent key.
\<close>

fun merge_columns ::
  "'v frame \<Rightarrow> string list \<Rightarrow> (string \<times> 'v cell counter) list
     \<Rightarrow> error + (string \<times> 'v cell counter) list" where
  "merge_columns chunk [] vc = Inr vc"
| "merge_columns chunk (col # cols) vc =
     (if col \<in> set (columns chunk)
      then (case map_of vc col of
              None \<Rightarrow> Inl (KeyError col)
            | Some ctr \<Rightarrow>
                merge_columns chunk cols
                  (dict_set vc col (counter_update ctr (value_counts (getitem chunk col)))))
      else merge_columns chunk cols vc)"

text \<open>The body of the loop after the cancellation check (source lines 267 to 272).\<close>

definition analyze_chunk :: "'v state \<Rightarrow> 'v frame \<Rightarrow> error + 'v state" where
  "analyze_chunk st chunk =
     (let st1 = st\<lparr>chunk_num := chunk_num st + 1\<rparr>;
          st2 = (if header st1 = []
                 then st1\<lparr>header := columns chunk,
                          value_counters := init_counters (columns chunk)\<rparr>
                 else st1)
      in case merge_columns chunk (header st2) (value_counters st2) of
           Inl e \<Rightarrow> Inl e
         | Inr vc \<Rightarrow> Inr (st2\<lparr>value_counters := vc\<rparr>))"

text \<open>
  \<^verbatim>\<open>for chunk in reader: if self.stop_event.is_set(): ...; break\<close>. The reader hands
  over the next chunk before the flag is looked at. The flag belongs to another thread;
  \<open>ev i\<close> is what the \<open>i\<close>-th call of \<^verbatim>\<open>is_set()\<close> of this run returns.
\<close>

fun chunk_loop :: "(nat \<Rightarrow> bool) \<Rightarrow> 'v state \<Rightarrow> 'v frame list \<Rightarrow> error + 'v state" where
  "chunk_loop ev st [] = Inr st"
| "chunk_loop ev st (chunk # rest) =
     (let st1 = st\<lparr>chunks_read := chunks_read st + 1, polls := polls st + 1\<rparr>
      in if ev (polls st) then Inr st1
         else (case analyze_chunk st1 chunk of
                 Inl e \<Rightarrow> Inl e
               | Inr st2 \<Rightarrow> chunk_loop ev st2 rest))"

subsection \<open>The chunked reader\<close>

text \<open>
  The file, once parsed, is a data frame of all its data rows. The reader
  \<^verbatim>\<open>pd.read_csv(f, chunksize=chunk_size, low_memory=False)\<close> is a library call; by its
  documentation it refuses a chunk size below 1 and a file without columns, it hands over
  the rows in pieces of \<open>chunk_size\<close> rows (the last one shorter), every piece under the
  same header, and for a file that has a header and no data row it yields one empty frame.
  The cells are taken as parsed: the type the reader gives a column is not modelled.
\<close>

function chunks_of :: "nat \<Rightarrow> 'a list \<Rightarrow> 'a list list" where
  "chunks_of n xs = (if n = 0 \<or> xs = [] then [] else take n xs # chunks_of n (drop n xs))"
  by pat_completeness auto
termination
  by (relation "measure (\<lambda>(n, xs). length xs)") auto

declare chunks_of.simps [simp del]

definition read_csv :: "'v frame \<Rightarrow> int \<Rightarrow> error + 'v frame list" where
  "read_csv file chunksize =
     (if chunksize < 1 then Inl ValueError
      else if columns file = [] then Inl EmptyDataError
      else if rows file = [] then Inr [file]
      else Inr (map (\<lambda>rs. \<lparr>columns = columns file, rows = rs\<rparr>)
                  (chunks_of (nat chunksize) (rows file))))"

text \<open>Source lines 262 to 272: open the reader and run the loop from the empty state.\<close>

definition aggregate :: "(nat \<Rightarrow> bool) \<Rightarrow> 'v frame \<Rightarrow> int \<Rightarrow> error + 'v state" where
  "aggregate ev file chunk_size =
     (case read_csv file chunk_size of
        Inl e \<Rightarrow> Inl e
      | Inr reader \<Rightarrow> chunk_loop ev initial reader)"

subsection \<open>The report\<close>

text \<open>Decimal text of a Python integer, as an f-string prints it.\<close>

function str_nat :: "nat \<Rightarrow> string" where
  "str_nat n = (if n < 10 then [''0123456789'' ! n]
                else str_nat (n div 10) @ [''0123456789'' ! (n mod 10)])"
  by pat_completeness auto
termination
  by (relation "measure id") auto

declare str_nat.simps [simp del]

definition str_int :: "int \<Rightarrow> string" where
  "str_int i = (if i < 0 then CHR ''-'' # str_nat (nat (- i)) else str_nat (nat i))"

text \<open>
  \<open>fmt\<close> is Python's \<^verbatim>\<open>str\<close> on the values of the file; the missing marker prints as
  \<^verbatim>\<open>nan\<close>.
\<close>

definition str_cell :: "('v \<Rightarrow> string) \<Rightarrow> 'v cell \<Rightarrow> string" where
  "str_cell fmt c = (case c of NaN \<Rightarrow> ''nan'' | Val v \<Rightarrow> fmt v)"

text \<open>
  \<^verbatim>\<open>generate_report(value_counters, top_n)\<close>, with \<open>vcounters\<close> for the dictionary
  of counters. The method also reads the file name from
  the window (\<open>fname\<close>, its base name) and the clock (\<open>now\<close>, already formatted as
  \<^verbatim>\<open>%Y-%m-%d %H:%M:%S\<close>); both are arguments here. Each \<^verbatim>\<open>report.write\<close> appends.
\<close>

definition generate_report ::
  "('v \<Rightarrow> string) \<Rightarrow> string \<Rightarrow> string \<Rightarrow> (string \<times> 'v cell counter) list \<Rightarrow> int \<Rightarrow> string" where
  "generate_report fmt fname now vcounters top_n =
     (let report = ''--- CSV Analysis Report ---\<newline>File: '' @ fname @ ''\<newline>'';
          report = report @ ''Analysis Date: '' @ now @ ''\<newline>Top '' @ str_int top_n
                     @ '' values:\<newline>'' @ replicate 40 CHR ''='' @ ''\<newline>\<newline>''
      in fold (\<lambda>(i, (col, counters)) report.
                 (let report = report @ ''--- Column '' @ str_nat (i + 1) @ '': '' @ [CHR 0x27]
                                 @ col @ [CHR 0x27] @ '' ---\<newline>''
                  in if counters = [] then report @ ''No values found.\<newline>\<newline>''
                     else fold (\<lambda>(value, count) report.
                                  report @ ''  - Value: '' @ [CHR 0x27] @ str_cell fmt value
                                    @ [CHR 0x27] @ '' | Count: '' @ str_int count @ ''\<newline>'')
                            (most_common counters top_n) report
                          @ ''\<newline>''))
            (zip [0..<length vcounters] vcounters) report)"

subsection \<open>The whole run\<close>

text \<open>
  Source lines 262 to 282 and the handler of line 284. The result is the text handed to
  \<^verbatim>\<open>update_report_text\<close> and the flag handed to \<^verbatim>\<open>enable_controls_after_processing\<close>;
  \<open>Inl e\<close> stands for the \<^verbatim>\<open>except Exception\<close> branch, which shows the error text and
  sets \<^verbatim>\<open>success = False\<close>. After the loop the flag is read twice more.
\<close>

record outcome =
  report_content :: string
  success :: bool

definition process_csv_thread ::
  "('v \<Rightarrow> string) \<Rightarrow> string \<Rightarrow> string \<Rightarrow> (nat \<Rightarrow> bool) \<Rightarrow> 'v frame \<Rightarrow> int \<Rightarrow> int
     \<Rightarrow> error + outcome" where
  "process_csv_thread fmt fname now ev file top_n chunk_size =
     (case aggregate ev file chunk_size of
        Inl e \<Rightarrow> Inl e
      | Inr st \<Rightarrow>
          Inr \<lparr>report_content =
                 (if ev (polls st) then ''Processing was stopped before completion.''
                  else generate_report fmt fname now (value_counters st) top_n),
               success = (\<not> ev (polls st + 1))\<rparr>)"

subsection \<open>Estimating the number of chunks\<close>



subsection \<open>Validating the two numbers typed by the user\<close>

definition DEFAULT_TOP_N :: int where "DEFAULT_TOP_N = 10"
definition CHUNK_SIZE_DEFAULT :: int where "CHUNK_SIZE_DEFAULT = 9000"
definition MIN_CHUNK_SIZE :: int where "MIN_CHUNK_SIZE = 500"

text \<open>
  Python's \<^verbatim>\<open>int(s)\<close> on a string of ASCII characters: blanks around the number are
  dropped, one sign is allowed, then come decimal digits, where single underscores may
  stand between two digits. More than 4300 digits are refused (the interpreter's default
  limit). \<open>None\<close> stands for \<^verbatim>\<open>ValueError\<close>. A character outside ASCII is refused here.
\<close>

definition is_space :: "char \<Rightarrow> bool" where
  "is_space c \<longleftrightarrow> c \<in> set [CHR 0x09, CHR 0x0A, CHR 0x0B, CHR 0x0C, CHR 0x0D, CHR 0x20]"

definition is_digit :: "char \<Rightarrow> bool" where
  "is_digit c \<longleftrightarrow> c \<in> set ''0123456789''"

definition strip :: "string \<Rightarrow> string" where
  "strip s = rev (dropWhile is_space (rev (dropWhile is_space s)))"

fun double_underscore :: "string \<Rightarrow> bool" where
  "double_underscore (a # b # cs) =
     ((a = CHR ''_'' \<and> b = CHR ''_'') \<or> double_underscore (b # cs))"
| "double_underscore _ = False"

definition digits_value :: "string \<Rightarrow> int" where
  "digits_value ds = foldl (\<lambda>acc d. 10 * acc + int (index_of ''0123456789'' d)) 0 ds"

definition py_int :: "string \<Rightarrow> int option" where
  "py_int s =
     (let t = strip s;
          negative = (t \<noteq> [] \<and> hd t = CHR ''-'');
          body = (if t \<noteq> [] \<and> (hd t = CHR ''+'' \<or> hd t = CHR ''-'') then tl t else t);
          ds = filter is_digit body
      in if body = [] \<or> hd body = CHR ''_'' \<or> last body = CHR ''_'' \<or> double_underscore body
            \<or> (\<exists>c \<in> set body. \<not> is_digit c \<and> c \<noteq> CHR ''_'')
            \<or> length ds > 4300
         then None
         else Some (if negative then - digits_value ds else digits_value ds))"

text \<open>
  \<^verbatim>\<open>validate_top_n\<close> and \<^verbatim>\<open>validate_chunk_size\<close> read the text of an entry field.
  They return the number to use; on the fallback they show a warning box and write the
  default back into the field.
\<close>

record validated =
  number :: int
  warning :: "string option"
  field :: string

definition validate_top_n :: "string \<Rightarrow> validated" where
  "validate_top_n top_n_var =
     (let fallback = \<lparr>number = DEFAULT_TOP_N,
                       warning = Some (''Top N is invalid. Using default: ''
                                         @ str_int DEFAULT_TOP_N @ ''.''),
                       field = str_int DEFAULT_TOP_N\<rparr>
      in case py_int top_n_var of
           None \<Rightarrow> fallback
         | Some top_n \<Rightarrow>
             if top_n > 0 then \<lparr>number = top_n, warning = None, field = top_n_var\<rparr>
             else fallback)"

definition validate_chunk_size :: "string \<Rightarrow> validated" where
  "validate_chunk_size chunk_size_var =
     (let fallback = \<lparr>number = CHUNK_SIZE_DEFAULT,
                       warning = Some (''Chunk size is invalid. Using default: ''
                                         @ str_int CHUNK_SIZE_DEFAULT @ ''.''),
                       field = str_int CHUNK_SIZE_DEFAULT\<rparr>
      in case py_int chunk_size_var of
           None \<Rightarrow> fallback
         | Some chunk_size \<Rightarrow>
             if chunk_size \<ge> MIN_CHUNK_SIZE
             then \<lparr>number = chunk_size, warning = None, field = chunk_size_var\<rparr>
             else fallback)"

section \<open>Notions used to state the properties\<close>

text \<open>The counter the run holds for a column (empty when the column has none).\<close>

definition counter_of :: "'v state \<Rightarrow> string \<Rightarrow> 'v cell counter" where
  "counter_of st col = (case map_of (value_counters st) col of None \<Rightarrow> [] | Some ctr \<Rightarrow> ctr)"

text \<open>
  The cells of a column over a sequence of chunks, in file order; a chunk that lacks the
  column contributes nothing. Its length is the number of rows seen for the column.
\<close>

definition column_cells :: "'v frame list \<Rightarrow> string \<Rightarrow> 'v cell list" where
  "column_cells chunks col =
     concat (map (\<lambda>chunk. if col \<in> set (columns chunk) then getitem chunk col else []) chunks)"

definition rows_seen :: "'v frame list \<Rightarrow> string \<Rightarrow> nat" where
  "rows_seen chunks col =
     sum_list (map (\<lambda>chunk. if col \<in> set (columns chunk) then length (rows chunk) else 0) chunks)"

definition non_missing :: "'v cell list \<Rightarrow> 'v cell list" where
  "non_missing cells = filter (\<lambda>c. c \<noteq> NaN) cells"

text \<open>Every stored count is strictly positive.\<close>

definition positive_counts :: "(string \<times> 'v cell counter) list \<Rightarrow> bool" where
  "positive_counts vcs = list_all (\<lambda>(col, ctr). list_all (\<lambda>(k, n). 0 < n) ctr) vcs"



text \<open>The pieces of the report's layout.\<close>

definition report_header :: "string \<Rightarrow> string \<Rightarrow> int \<Rightarrow> string" where
  "report_header fname now top_n =
     ''--- CSV Analysis Report ---\<newline>File: '' @ fname @ ''\<newline>Analysis Date: '' @ now
       @ ''\<newline>Top '' @ str_int top_n @ '' values:\<newline>''
       @ replicate 40 CHR ''='' @ ''\<newline>\<newline>''"

definition section_title :: "nat \<Rightarrow> string \<Rightarrow> string" where
  "section_title i col =
     ''--- Column '' @ str_nat i @ '': '' @ [CHR 0x27] @ col @ [CHR 0x27] @ '' ---\<newline>''"

definition value_line :: "('v \<Rightarrow> string) \<Rightarrow> 'v cell \<times> int \<Rightarrow> string" where
  "value_line fmt p =
     ''  - Value: '' @ [CHR 0x27] @ str_cell fmt (fst p) @ [CHR 0x27] @ '' | Count: ''
       @ str_int (snd p) @ ''\<newline>''"

text \<open>The line written for a column without values, and one column's section.\<close>

definition placeholder :: string where
  "placeholder = ''No values found.\<newline>\<newline>''"

definition column_section :: "('v \<Rightarrow> string) \<Rightarrow> int \<Rightarrow> nat \<times> string \<times> 'v cell counter \<Rightarrow> string" where
  "column_section fmt top_n x =
     section_title (fst x + 1) (fst (snd x))
       @ (if snd (snd x) = [] then placeholder
          else concat (map (value_line fmt) (most_common (snd (snd x)) top_n)) @ ''\<newline>'')"

section \<open>Invariants of the loop\<close>

text \<open>
  A counter tallies a list of cells when its keys are distinct and it maps exactly the
  non-missing values of the list to their numbers of occurrences.
\<close>

definition tallies :: "'k cell counter \<Rightarrow> 'k cell list \<Rightarrow> bool" where
  "tallies ctr cells \<longleftrightarrow>
     distinct (map fst ctr) \<and>
     (\<forall>k. map_of ctr k =
            (if k \<noteq> NaN \<and> k \<in> set cells then Some (int (count_list cells k)) else None))"

text \<open>A counter is good when its keys are distinct, never the missing marker, and every
  count is positive.\<close>

definition good :: "'k cell counter \<Rightarrow> bool" where
  "good ctr \<longleftrightarrow> distinct (map fst ctr) \<and> list_all (\<lambda>(k, n). 0 < n \<and> k \<noteq> NaN) ctr"

text \<open>What holds of the loop's variables in every run, whatever the chunks are.\<close>

definition sound :: "'v state \<Rightarrow> bool" where
  "sound st \<longleftrightarrow>
     set (header st) \<subseteq> fst ` set (value_counters st) \<and>
     (header st = [] \<longrightarrow> value_counters st = []) \<and>
     list_all (\<lambda>(col, ctr). good ctr) (value_counters st)"

text \<open>
  What holds after the chunks \<open>cs\<close> have been merged, when every chunk has a non-empty
  header without repeated names: the header is that of the first chunk and every column's
  counter tallies the cells seen for the column.
\<close>

definition tracks :: "'v state \<Rightarrow> 'v frame list \<Rightarrow> bool" where
  "tracks st cs \<longleftrightarrow>
     distinct (header st) \<and> map fst (value_counters st) = header st \<and>
     chunk_num st = length cs \<and>
     (case cs of [] \<Rightarrow> [] | c # _ \<Rightarrow> columns c) = header st \<and>
     (cs = [] \<longleftrightarrow> header st = []) \<and>
     list_all (\<lambda>col. tallies (counter_of st col) (column_cells cs col)) (header st)"

section \<open>Example inputs\<close>

text \<open>A file of three rows with one missing cell, and the state of the loop after it.\<close>

definition small_file :: "string frame" where
  "small_file = \<lparr>columns = [''id'', ''Status''],
                 rows = [[Val ''1'', Val ''OK''], [Val ''2'', NaN], [Val ''3'', Val ''OK'']]\<rparr>"

definition small_state :: "string state" where
  "small_state = \<lparr>value_counters = [(''id'', [(Val ''1'', 1), (Val ''2'', 1), (Val ''3'', 1)]),
                                      (''Status'', [(Val ''OK'', 2)])],
                  header = [''id'', ''Status''], chunk_num = 1, polls = 1, chunks_read = 1\<rparr>"

text \<open>The same file with the row of the missing cell cut short.\<close>

definition small_file_short :: "string frame" where
  "small_file_short = \<lparr>columns = [''id'', ''Status''],
                        rows = [[Val ''1'', Val ''OK''], [Val ''2''], [Val ''3'', Val ''OK'']]\<rparr>"

text \<open>
  A file of 501 rows in one column: with 500 rows to the chunk, the second chunk holds the
  last row alone.
\<close>

definition tie_file :: "string frame" where
  "tie_file = \<lparr>columns = [''v''],
               rows = [[Val ''a''], [Val ''b''], [Val ''b'']] @ replicate 497 [Val ''c'']
                        @ [[Val ''a'']]\<rparr>"

definition tie_chunks :: "string frame list" where
  "tie_chunks =
     [\<lparr>columns = [''v''],
       rows = [[Val ''a''], [Val ''b''], [Val ''b'']] @ replicate 497 [Val ''c'']\<rparr>,
      \<lparr>columns = [''v''], rows = [[Val ''a'']]\<rparr>]"


text \<open>
  The counters of the specification's example (\<open>Status\<close> with OK 15, FAIL 7, WARN 3),
  followed by a column that recorded nothing.
\<close>

definition status_counters :: "(string \<times> string cell counter) list" where
  "status_counters = [(''Status'', [(Val ''OK'', 15), (Val ''FAIL'', 7), (Val ''WARN'', 3)]),
                      (''Note'', [])]"

section \<open>Dictionaries and counters\<close>

lemma map_of_dict_set: "map_of (dict_set d k v) = (map_of d)(k \<mapsto> v)"
  by (induction d) auto

lemma keys_dict_set:
  "map fst (dict_set d k v) = (if k \<in> fst ` set d then map fst d else map fst d @ [k])"
  by (induction d) force+

lemma distinct_dict_set: "distinct (map fst d) \<Longrightarrow> distinct (map fst (dict_set d k v))"
  by (simp add: keys_dict_set)

lemma dict_set_fresh: "k \<notin> fst ` set d \<Longrightarrow> dict_set d k v = d @ [(k, v)]"
  by (induction d) auto

lemma counter_get_absent: "k \<notin> fst ` set d \<Longrightarrow> counter_get d k = 0"
  by (simp add: counter_get_def map_of_eq_None_iff[THEN iffD2])

lemma sum_dict_set:
  "distinct (map fst d) \<Longrightarrow>
   sum_list (map snd (dict_set d k v)) = sum_list (map snd d) - counter_get d k + v"
proof (induction d)
  case Nil
  then show ?case by (simp add: counter_get_def)
next
  case (Cons p d)
  obtain k' v' where p: "p = (k', v')" by (cases p)
  show ?case
  proof (cases "k' = k")
    case True
    then show ?thesis using p by (simp add: counter_get_def)
  next
    case False
    then show ?thesis using p Cons by (simp add: counter_get_def)
  qed
qed

lemma counter_get_dict_set:
  "counter_get (dict_set d k v) k' = (if k' = k then v else counter_get d k')"
  by (simp add: counter_get_def map_of_dict_set)

lemma counter_get_Nil: "counter_get [] k = 0"
  by (simp add: counter_get_def)

lemma counter_get_Cons: "counter_get ((e, c) # d) k = (if k = e then c else counter_get d k)"
  by (simp add: counter_get_def)

lemma fold_add_get:
  "distinct (map fst it) \<Longrightarrow>
   counter_get (fold (\<lambda>(elem, count) s. dict_set s elem (count + counter_get s elem)) it s) k
     = counter_get s k + counter_get it k"
proof (induction it arbitrary: s)
  case Nil
  then show ?case by (simp add: counter_get_Nil)
next
  case (Cons p it)
  obtain e c where p: "p = (e, c)" by (cases p)
  from Cons.prems p have ne: "e \<notin> fst ` set it" and d: "distinct (map fst it)" by auto
  show ?case
  proof (cases "k = e")
    case True
    with ne have "counter_get it k = 0" by (simp add: counter_get_absent)
    then show ?thesis using p True Cons.IH[OF d] by (simp add: counter_get_dict_set counter_get_Cons)
  next
    case False
    then show ?thesis using p Cons.IH[OF d] by (simp add: counter_get_dict_set counter_get_Cons)
  qed
qed

lemma fold_set_fresh:
  "distinct (map fst (s @ it)) \<Longrightarrow>
   fold (\<lambda>(elem, count) s. dict_set s elem count) it s = s @ it"
proof (induction it arbitrary: s)
  case Nil
  then show ?case by simp
next
  case (Cons p it)
  obtain e c where p: "p = (e, c)" by (cases p)
  from Cons.prems p have "e \<notin> fst ` set s" by auto
  then have "dict_set s e c = s @ [(e, c)]" by (rule dict_set_fresh)
  moreover from Cons.prems p have "distinct (map fst ((s @ [(e, c)]) @ it))" by auto
  ultimately show ?case using p Cons.IH[of "s @ [(e, c)]"] by simp
qed

lemma counter_update_get:
  "distinct (map fst it) \<Longrightarrow>
   counter_get (counter_update self it) k = counter_get self k + counter_get it k"
  by (cases "self = []") (simp_all add: counter_update_def fold_add_get fold_set_fresh counter_get_Nil)

lemma fold_add_map_of:
  "distinct (map fst it) \<Longrightarrow>
   map_of (fold (\<lambda>(elem, count) s. dict_set s elem (count + counter_get s elem)) it s) k
     = (case map_of it k of None \<Rightarrow> map_of s k | Some c \<Rightarrow> Some (c + counter_get s k))"
proof (induction it arbitrary: s)
  case Nil
  then show ?case by simp
next
  case (Cons p it)
  obtain e c where p: "p = (e, c)" by (cases p)
  from Cons.prems p have ne: "e \<notin> fst ` set it" and d: "distinct (map fst it)" by auto
  from ne have none: "map_of it e = None" by (simp add: map_of_eq_None_iff)
  show ?case
  proof (cases "k = e")
    case True
    then show ?thesis using p none Cons.IH[OF d] by (simp add: map_of_dict_set)
  next
    case False
    then show ?thesis using p Cons.IH[OF d]
      by (simp add: map_of_dict_set counter_get_dict_set split: option.splits)
  qed
qed

lemma counter_update_map_of:
  "distinct (map fst it) \<Longrightarrow>
   map_of (counter_update self it) k
     = (case map_of it k of None \<Rightarrow> map_of self k | Some c \<Rightarrow> Some (c + counter_get self k))"
  by (cases "self = []")
     (simp_all add: counter_update_def fold_add_map_of fold_set_fresh counter_get_Nil
        split: option.splits)

lemma fold_add_distinct:
  "distinct (map fst s) \<Longrightarrow>
   distinct (map fst (fold (\<lambda>(elem, count) s. dict_set s elem (count + counter_get s elem)) it s))"
  by (induction it arbitrary: s) (auto simp: distinct_dict_set)

lemma fold_set_distinct:
  "distinct (map fst s) \<Longrightarrow>
   distinct (map fst (fold (\<lambda>(elem, count) s. dict_set s elem count) it s))"
  by (induction it arbitrary: s) (auto simp: distinct_dict_set)

lemma counter_update_distinct:
  "distinct (map fst self) \<Longrightarrow> distinct (map fst (counter_update self it))"
  by (simp add: counter_update_def fold_add_distinct fold_set_distinct)

lemma uniques_fold_set:
  "set (fold (\<lambda>x seen. if x \<in> set seen then seen else seen @ [x]) xs acc) = set acc \<union> set xs"
  by (induction xs arbitrary: acc) auto

lemma uniques_fold_distinct:
  "distinct acc \<Longrightarrow>
   distinct (fold (\<lambda>x seen. if x \<in> set seen then seen else seen @ [x]) xs acc)"
  by (induction xs arbitrary: acc) auto

lemma set_uniques: "set (uniques xs) = set xs"
  by (simp add: uniques_def uniques_fold_set)

lemma distinct_uniques: "distinct (uniques xs)"
  by (simp add: uniques_def uniques_fold_distinct)

lemma count_list_non_missing:
  "k \<noteq> NaN \<Longrightarrow> count_list (non_missing cells) k = count_list cells k"
  by (induction cells) (auto simp: non_missing_def)

lemma value_counts_alt:
  "value_counts series =
     sort_key (\<lambda>p. - snd p)
       (map (\<lambda>k. (k, int (count_list (non_missing series) k))) (uniques (non_missing series)))"
  by (simp add: value_counts_def non_missing_def case_prod_unfold Let_def)

lemma value_counts_keys_set:
  "fst ` set (value_counts series) = set (non_missing series)"
  by (simp add: value_counts_alt image_image set_uniques)

lemma value_counts_distinct: "distinct (map fst (value_counts series))"
proof -
  have "mset (map fst (value_counts series)) = mset (uniques (non_missing series))"
    by (simp add: value_counts_alt multiset.map_comp comp_def)
  then show ?thesis
    using distinct_uniques[of "non_missing series"] by (metis mset_eq_imp_distinct_iff)
qed

lemma value_counts_map_of:
  "map_of (value_counts series) k =
     (if k \<noteq> NaN \<and> k \<in> set series then Some (int (count_list series k)) else None)"
proof (cases "k \<noteq> NaN \<and> k \<in> set series")
  case True
  then have "k \<in> set (uniques (non_missing series))"
    by (simp add: set_uniques non_missing_def)
  then have "(k, int (count_list series k)) \<in> set (value_counts series)"
    using True by (auto simp: value_counts_alt count_list_non_missing)
  then show ?thesis
    using True value_counts_distinct[of series] by simp
next
  case False
  then have "k \<notin> fst ` set (value_counts series)"
    by (auto simp: value_counts_keys_set non_missing_def)
  then have "map_of (value_counts series) k = None"
    by (simp add: map_of_eq_None_iff)
  with False show ?thesis by auto
qed

lemma tallies_Nil: "tallies [] []"
  by (simp add: tallies_def)

lemma tallies_value_counts: "tallies (value_counts series) series"
  by (simp add: tallies_def value_counts_distinct value_counts_map_of)

lemma tallies_update:
  assumes "tallies ctr cells"
  shows "tallies (counter_update ctr (value_counts extra)) (cells @ extra)"
proof -
  from assms have d: "distinct (map fst ctr)"
    and m: "\<And>k. map_of ctr k =
            (if k \<noteq> NaN \<and> k \<in> set cells then Some (int (count_list cells k)) else None)"
    by (simp_all add: tallies_def)
  have g: "\<And>k. counter_get ctr k = (if k \<noteq> NaN \<and> k \<in> set cells then int (count_list cells k) else 0)"
    by (simp add: counter_get_def m)
  have z: "\<And>k xs. k \<notin> set xs \<Longrightarrow> count_list xs k = 0"
    by simp
  have "map_of (counter_update ctr (value_counts extra)) k =
          (if k \<noteq> NaN \<and> k \<in> set (cells @ extra)
           then Some (int (count_list (cells @ extra) k)) else None)" for k
    by (simp add: counter_update_map_of value_counts_distinct value_counts_map_of m g z)
  then show ?thesis
    by (simp add: tallies_def counter_update_distinct d)
qed

subsection \<open>Merging one chunk\<close>

lemma set_dict_set: "set (dict_set d k v) \<subseteq> insert (k, v) (set d)"
  by (induction d) (auto split: if_splits)

lemma keys_set_dict_set: "fst ` set (dict_set d k v) = insert k (fst ` set d)"
proof -
  have "set (map fst (dict_set d k v)) = insert k (set (map fst d))"
    by (auto simp: keys_dict_set)
  then show ?thesis by simp
qed

lemma merge_columns_ok:
  "set cols \<subseteq> fst ` set vc \<Longrightarrow>
   \<exists>vc'. merge_columns chunk cols vc = Inr vc' \<and> fst ` set vc' = fst ` set vc"
proof (induction cols arbitrary: vc)
  case Nil
  then show ?case by simp
next
  case (Cons col cols)
  show ?case
  proof (cases "col \<in> set (columns chunk)")
    case False
    then show ?thesis using Cons by simp
  next
    case True
    from Cons.prems have "col \<in> fst ` set vc" by simp
    then obtain ctr where ctr: "map_of vc col = Some ctr"
      by (metis map_of_eq_None_iff not_Some_eq)
    let ?vc1 = "dict_set vc col (counter_update ctr (value_counts (getitem chunk col)))"
    have k: "fst ` set ?vc1 = fst ` set vc"
      using \<open>col \<in> fst ` set vc\<close> by (auto simp: keys_set_dict_set)
    with Cons.prems have "set cols \<subseteq> fst ` set ?vc1" by simp
    from Cons.IH[OF this] k True ctr show ?thesis by simp
  qed
qed

lemma merge_columns_all:
  assumes step: "\<And>c s. Q c \<Longrightarrow> Q (counter_update c (value_counts s))"
  shows "\<forall>p \<in> set vc. Q (snd p) \<Longrightarrow> merge_columns chunk cols vc = Inr vc'
         \<Longrightarrow> \<forall>p \<in> set vc'. Q (snd p)"
proof (induction cols arbitrary: vc)
  case Nil
  then show ?case by simp
next
  case (Cons col cols)
  show ?case
  proof (cases "col \<in> set (columns chunk)")
    case False
    then show ?thesis using Cons by simp
  next
    case True
    with Cons.prems(2) obtain ctr where ctr: "map_of vc col = Some ctr"
      by (auto split: option.splits)
    let ?new = "counter_update ctr (value_counts (getitem chunk col))"
    from ctr have "(col, ctr) \<in> set vc" by (rule map_of_SomeD)
    with Cons.prems(1) have "Q ctr" by auto
    then have "Q ?new" by (rule step)
    with Cons.prems(1) have "\<forall>p \<in> set (dict_set vc col ?new). Q (snd p)"
      using set_dict_set[of vc col ?new] by auto
    moreover from Cons.prems(2) True ctr
    have "merge_columns chunk cols (dict_set vc col ?new) = Inr vc'" by simp
    ultimately show ?thesis by (rule Cons.IH)
  qed
qed

lemma merge_columns_rel:
  assumes refl: "\<And>c. R c c"
    and trans: "\<And>a b c. R a b \<Longrightarrow> R b c \<Longrightarrow> R a c"
    and step: "\<And>c s. R c (counter_update c (value_counts s))"
  shows "merge_columns chunk cols vc = Inr vc' \<Longrightarrow> map_of vc col = Some c
         \<Longrightarrow> \<exists>c'. map_of vc' col = Some c' \<and> R c c'"
proof (induction cols arbitrary: vc c)
  case Nil
  then show ?case using refl by simp
next
  case (Cons x cols)
  show ?case
  proof (cases "x \<in> set (columns chunk)")
    case False
    then show ?thesis using Cons by simp
  next
    case True
    with Cons.prems(1) obtain ctr where ctr: "map_of vc x = Some ctr"
      by (auto split: option.splits)
    let ?new = "counter_update ctr (value_counts (getitem chunk x))"
    let ?vc1 = "dict_set vc x ?new"
    from Cons.prems(1) True ctr have m: "merge_columns chunk cols ?vc1 = Inr vc'" by simp
    show ?thesis
    proof (cases "col = x")
      case True
      then have "map_of ?vc1 col = Some ?new" by (simp add: map_of_dict_set)
      from Cons.IH[OF m this] obtain c' where c': "map_of vc' col = Some c'" "R ?new c'"
        by blast
      from True ctr Cons.prems(2) have "c = ctr" by simp
      then have "R c ?new" using step by simp
      with c' show ?thesis using trans by blast
    next
      case False
      then have "map_of ?vc1 col = Some c" using Cons.prems(2) by (simp add: map_of_dict_set)
      from Cons.IH[OF m this] show ?thesis .
    qed
  qed
qed

lemma merge_columns_keys:
  "merge_columns chunk cols vc = Inr vc' \<Longrightarrow> map fst vc' = map fst vc"
proof (induction cols arbitrary: vc)
  case Nil
  then show ?case by simp
next
  case (Cons x cols)
  show ?case
  proof (cases "x \<in> set (columns chunk)")
    case False
    then show ?thesis using Cons by simp
  next
    case True
    with Cons.prems obtain ctr where ctr: "map_of vc x = Some ctr"
      by (auto split: option.splits)
    let ?vc1 = "dict_set vc x (counter_update ctr (value_counts (getitem chunk x)))"
    from Cons.prems True ctr have m: "merge_columns chunk cols ?vc1 = Inr vc'" by simp
    from ctr have "x \<in> fst ` set vc" by (metis map_of_eq_None_iff option.distinct(1))
    then have "map fst ?vc1 = map fst vc" by (simp add: keys_dict_set)
    with Cons.IH[OF m] show ?thesis by simp
  qed
qed

lemma merge_columns_exact:
  "distinct cols \<Longrightarrow> merge_columns chunk cols vc = Inr vc' \<Longrightarrow>
   map_of vc' col =
     (if col \<in> set cols \<and> col \<in> set (columns chunk)
      then map_option (\<lambda>c. counter_update c (value_counts (getitem chunk col))) (map_of vc col)
      else map_of vc col)"
proof (induction cols arbitrary: vc)
  case Nil
  then show ?case by simp
next
  case (Cons x cols)
  from Cons.prems(1) have nx: "x \<notin> set cols" and d: "distinct cols" by simp_all
  show ?case
  proof (cases "x \<in> set (columns chunk)")
    case False
    with Cons.prems(2) have "merge_columns chunk cols vc = Inr vc'" by simp
    from Cons.IH[OF d this] False show ?thesis by auto
  next
    case True
    with Cons.prems(2) obtain ctr where ctr: "map_of vc x = Some ctr"
      by (auto split: option.splits)
    let ?vc1 = "dict_set vc x (counter_update ctr (value_counts (getitem chunk x)))"
    from Cons.prems(2) True ctr have m: "merge_columns chunk cols ?vc1 = Inr vc'" by simp
    from Cons.IH[OF d m] nx True ctr show ?thesis
      by (auto simp: map_of_dict_set)
  qed
qed

subsection \<open>What every run keeps\<close>

lemma good_Nil: "good []"
  by (simp add: good_def)

lemma good_map_of:
  "good ctr \<Longrightarrow> map_of ctr k = Some n \<Longrightarrow> 0 < n \<and> k \<noteq> NaN"
  by (auto simp: good_def list_all_iff dest!: map_of_SomeD)

lemma good_get_nonneg: "good ctr \<Longrightarrow> 0 \<le> counter_get ctr k"
  using good_map_of[of ctr k] by (cases "map_of ctr k") (auto simp: counter_get_def)

lemma value_counts_get_nonneg: "0 \<le> counter_get (value_counts s) k"
  by (simp add: counter_get_def value_counts_map_of)

lemma good_update:
  assumes "good ctr"
  shows "good (counter_update ctr (value_counts s))"
proof -
  let ?u = "counter_update ctr (value_counts s)"
  from assms have d: "distinct (map fst ?u)"
    by (simp add: good_def counter_update_distinct)
  have "0 < n \<and> k \<noteq> NaN" if "(k, n) \<in> set ?u" for k n
  proof -
    from that d have m: "map_of ?u k = Some n" by simp
    show ?thesis
    proof (cases "map_of (value_counts s) k")
      case None
      with m have "map_of ctr k = Some n"
        by (simp add: counter_update_map_of value_counts_distinct)
      with assms show ?thesis by (rule good_map_of)
    next
      case (Some c)
      then have c: "k \<noteq> NaN \<and> k \<in> set s \<and> c = int (count_list s k)"
        by (simp add: value_counts_map_of split: if_splits)
      then have "count_list s k \<noteq> 0" by (simp add: count_list_0_iff)
      with c have "0 < c" by simp
      moreover from m Some have "n = c + counter_get ctr k"
        by (simp add: counter_update_map_of value_counts_distinct)
      ultimately show ?thesis using good_get_nonneg[OF assms, of k] c by simp
    qed
  qed
  with d show ?thesis by (auto simp: good_def list_all_iff)
qed

lemma update_get_mono:
  "counter_get ctr k \<le> counter_get (counter_update ctr (value_counts s)) k"
  using value_counts_get_nonneg[of s k]
  by (simp add: counter_update_get value_counts_distinct)

lemma init_fold_keys:
  "fst ` set (fold (\<lambda>col d. dict_set d col []) hdr d) = fst ` set d \<union> set hdr"
  by (induction hdr arbitrary: d) (auto simp: keys_set_dict_set)

lemma init_fold_all:
  "\<forall>p \<in> set d. Q (snd p) \<Longrightarrow> Q [] \<Longrightarrow>
   \<forall>p \<in> set (fold (\<lambda>col d. dict_set d col []) hdr d). Q (snd p)"
proof (induction hdr arbitrary: d)
  case Nil
  then show ?case by simp
next
  case (Cons x hdr)
  have "\<forall>p \<in> set (dict_set d x []). Q (snd p)"
    using Cons.prems set_dict_set[of d x "[]"] by auto
  from Cons.IH[OF this Cons.prems(2)] show ?case by simp
qed

lemma init_fold_fresh:
  "distinct (map fst d @ hdr) \<Longrightarrow>
   fold (\<lambda>col d. dict_set d col []) hdr d = d @ map (\<lambda>c. (c, [])) hdr"
proof (induction hdr arbitrary: d)
  case Nil
  then show ?case by simp
next
  case (Cons x hdr)
  from Cons.prems have "x \<notin> fst ` set d" by auto
  then have "dict_set d x [] = d @ [(x, [])]" by (rule dict_set_fresh)
  moreover from Cons.prems have "distinct (map fst (d @ [(x, [])]) @ hdr)" by auto
  ultimately show ?case using Cons.IH[of "d @ [(x, [])]"] by simp
qed

lemma init_counters_distinct:
  "distinct hdr \<Longrightarrow> init_counters hdr = map (\<lambda>c. (c, [])) hdr"
  by (simp add: init_counters_def init_fold_fresh)

lemma sound_initial: "sound initial"
  by (simp add: sound_def initial_def)

lemma counter_of_get_None:
  "map_of (value_counters st) col = None \<Longrightarrow> counter_get (counter_of st col) k = 0"
  by (simp add: counter_of_def counter_get_def)

lemma analyze_sound:
  assumes "sound st"
  shows "\<exists>st'. analyze_chunk st c = Inr st' \<and> sound st'
           \<and> chunk_num st' = Suc (chunk_num st) \<and> polls st' = polls st
           \<and> chunks_read st' = chunks_read st
           \<and> (\<forall>col k. counter_get (counter_of st col) k \<le> counter_get (counter_of st' col) k)"
proof -
  define hdr where "hdr = (if header st = [] then columns c else header st)"
  define vc where "vc = (if header st = [] then init_counters (columns c) else value_counters st)"
  have keys: "set hdr \<subseteq> fst ` set vc"
    using assms by (auto simp: hdr_def vc_def sound_def init_counters_def init_fold_keys)
  have goodvc: "\<forall>p \<in> set vc. good (snd p)"
  proof (cases "header st = []")
    case True
    have "\<forall>p \<in> set (fold (\<lambda>col d. dict_set d col []) (columns c) []). good (snd p)"
      by (rule init_fold_all) (simp_all add: good_Nil)
    with True show ?thesis by (simp add: vc_def init_counters_def)
  next
    case False
    with assms show ?thesis by (auto simp: vc_def sound_def list_all_iff)
  qed
  from merge_columns_ok[OF keys] obtain vc' where
    m: "merge_columns c hdr vc = Inr vc'" and k': "fst ` set vc' = fst ` set vc" by blast
  have good': "\<forall>p \<in> set vc'. good (snd p)"
    by (rule merge_columns_all[where Q = good, OF _ goodvc m]) (rule good_update)
  have mk: "map fst vc' = map fst vc" using m by (rule merge_columns_keys)
  define st' where "st' = st\<lparr>chunk_num := chunk_num st + 1, header := hdr, value_counters := vc'\<rparr>"
  have res: "analyze_chunk st c = Inr st'"
    using m by (auto simp: analyze_chunk_def Let_def hdr_def vc_def st'_def)
  have empty: "hdr = [] \<longrightarrow> vc' = []"
  proof
    assume h: "hdr = []"
    then have "vc = []" using assms
      by (auto simp: hdr_def vc_def sound_def init_counters_def split: if_splits)
    with mk show "vc' = []" by simp
  qed
  have s': "sound st'"
    using keys k' good' empty by (auto simp: sound_def st'_def list_all_iff)
  have mono: "counter_get (counter_of st col) k \<le> counter_get (counter_of st' col) k" for col k
  proof (cases "map_of vc col")
    case None
    then have "col \<notin> fst ` set vc" by (simp add: map_of_eq_None_iff)
    then have n': "map_of vc' col = None" using k' by (simp add: map_of_eq_None_iff)
    have "map_of (value_counters st) col = None"
      using None assms by (auto simp: vc_def sound_def split: if_splits)
    then show ?thesis using n' by (simp add: counter_of_def counter_get_def st'_def)
  next
    case (Some ctr)
    have "\<exists>c'. map_of vc' col = Some c' \<and> (\<forall>k. counter_get ctr k \<le> counter_get c' k)"
    proof (rule merge_columns_rel[where R = "\<lambda>a b. \<forall>k. counter_get a k \<le> counter_get b k", OF _ _ _ m Some])
      show "\<And>c. \<forall>k. counter_get c k \<le> counter_get c k" by simp
      show "\<And>a b c. \<forall>k. counter_get a k \<le> counter_get b k \<Longrightarrow>
              \<forall>k. counter_get b k \<le> counter_get c k \<Longrightarrow> \<forall>k. counter_get a k \<le> counter_get c k"
        by (meson order_trans)
      show "\<And>c s. \<forall>k. counter_get c k \<le> counter_get (counter_update c (value_counts s)) k"
        by (simp add: update_get_mono)
    qed
    then obtain c' where c': "map_of vc' col = Some c'"
      and le: "counter_get ctr k \<le> counter_get c' k" by blast
    have "counter_get (counter_of st col) k \<le> counter_get ctr k"
    proof (cases "header st = []")
      case True
      with assms have "value_counters st = []" by (simp add: sound_def)
      then have "counter_get (counter_of st col) k = 0"
        by (simp add: counter_of_def counter_get_def)
      moreover from Some goodvc have "good ctr" by (auto dest!: map_of_SomeD)
      ultimately show ?thesis using good_get_nonneg[of ctr k] by simp
    next
      case False
      with Some show ?thesis by (simp add: vc_def counter_of_def)
    qed
    with le c' show ?thesis by (simp add: counter_of_def st'_def)
  qed
  from res s' mono show ?thesis by (auto simp: st'_def)
qed

lemma chunk_loop_sound:
  "sound st \<Longrightarrow> \<exists>st'. chunk_loop ev st cs = Inr st' \<and> sound st'"
proof (induction cs arbitrary: st)
  case Nil
  then show ?case by simp
next
  case (Cons c cs)
  let ?st1 = "st\<lparr>chunks_read := chunks_read st + 1, polls := polls st + 1\<rparr>"
  from Cons.prems have s1: "sound ?st1" by (simp add: sound_def)
  show ?case
  proof (cases "ev (polls st)")
    case True
    with s1 show ?thesis by (simp add: Let_def)
  next
    case False
    from analyze_sound[OF s1, of c] obtain st2 where
      a: "analyze_chunk ?st1 c = Inr st2" and s2: "sound st2" by blast
    from Cons.IH[OF s2] a False show ?thesis by (simp add: Let_def)
  qed
qed

subsection \<open>Exact tallies under a well-formed header\<close>

lemma tracks_initial: "tracks initial []"
  by (simp add: tracks_def initial_def)

lemma column_cells_snoc:
  "column_cells (cs @ [c]) col =
     column_cells cs col @ (if col \<in> set (columns c) then getitem c col else [])"
  by (simp add: column_cells_def)

lemma map_of_init: "col \<in> set hdr \<Longrightarrow> map_of (map (\<lambda>c. (c, [])) hdr) col = Some []"
  by (induction hdr) auto

lemma tallies_same: "tallies ctr cells \<Longrightarrow> tallies ctr (cells @ [])"
  by simp

lemma analyze_tracks:
  assumes t: "tracks st cs" and ne: "columns c \<noteq> []" and dc: "distinct (columns c)"
  shows "\<exists>st'. analyze_chunk st c = Inr st' \<and> tracks st' (cs @ [c])
           \<and> polls st' = polls st \<and> chunks_read st' = chunks_read st"
proof -
  define hdr where "hdr = (if header st = [] then columns c else header st)"
  define vc where "vc = (if header st = [] then init_counters (columns c) else value_counters st)"
  have dh: "distinct hdr" using t dc by (simp add: hdr_def tracks_def)
  have kv: "map fst vc = hdr"
    using t dc by (auto simp: hdr_def vc_def tracks_def init_counters_distinct comp_def)
  then have "set hdr \<subseteq> fst ` set vc" by (metis set_map subset_refl)
  from merge_columns_ok[OF this] obtain vc' where
    m: "merge_columns c hdr vc = Inr vc'" by blast
  have mk: "map fst vc' = hdr" using merge_columns_keys[OF m] kv by simp
  define st' where "st' = st\<lparr>chunk_num := chunk_num st + 1, header := hdr, value_counters := vc'\<rparr>"
  have res: "analyze_chunk st c = Inr st'"
    using m by (auto simp: analyze_chunk_def Let_def hdr_def vc_def st'_def)
  have hd: "(case cs @ [c] of [] \<Rightarrow> [] | x # _ \<Rightarrow> columns x) = hdr"
    using t by (cases cs) (auto simp: hdr_def tracks_def)
  have hne: "hdr \<noteq> []" using ne by (simp add: hdr_def)
  have old: "tallies (case map_of vc col of None \<Rightarrow> [] | Some ctr \<Rightarrow> ctr) (column_cells cs col)"
    if "col \<in> set hdr" for col
  proof (cases "header st = []")
    case True
    with t have "cs = []" by (simp add: tracks_def)
    moreover from True that dc have "map_of vc col = Some []"
      by (simp add: vc_def hdr_def init_counters_distinct map_of_init)
    ultimately show ?thesis by (simp add: column_cells_def tallies_Nil)
  next
    case False
    with t that show ?thesis
      by (simp add: tracks_def hdr_def vc_def list_all_iff counter_of_def)
  qed
  have new: "tallies (counter_of st' col) (column_cells (cs @ [c]) col)"
    if "col \<in> set hdr" for col
  proof -
    from that kv obtain ctr where ctr: "map_of vc col = Some ctr"
      by (metis map_of_eq_None_iff not_Some_eq set_map)
    from old[OF that] ctr have told: "tallies ctr (column_cells cs col)" by simp
    show ?thesis
    proof (cases "col \<in> set (columns c)")
      case True
      with merge_columns_exact[OF dh m, of col] that ctr
      have "map_of vc' col = Some (counter_update ctr (value_counts (getitem c col)))" by simp
      then show ?thesis
        using True tallies_update[OF told, of "getitem c col"]
        by (simp add: counter_of_def st'_def column_cells_snoc)
    next
      case False
      with merge_columns_exact[OF dh m, of col] ctr
      have "map_of vc' col = Some ctr" by simp
      then show ?thesis using False told
        by (simp add: counter_of_def st'_def column_cells_snoc)
    qed
  qed
  have "tracks st' (cs @ [c])"
    using dh mk hd hne new t by (simp add: tracks_def st'_def list_all_iff)
  with res show ?thesis by (auto simp: st'_def)
qed

lemma tracks_counters_irrelevant:
  "tracks (st\<lparr>chunks_read := r, polls := p\<rparr>) cs = tracks st cs"
  by (simp add: tracks_def counter_of_def)

lemma chunk_loop_tracks:
  assumes "tracks st pre" and "\<forall>c \<in> set cs. columns c \<noteq> [] \<and> distinct (columns c)"
  shows "\<exists>st'. chunk_loop ev st cs = Inr st'
           \<and> length pre \<le> chunk_num st' \<and> chunk_num st' \<le> length pre + length cs
           \<and> tracks st' (pre @ take (chunk_num st' - length pre) cs)
           \<and> ((\<forall>i. \<not> ev i) \<longrightarrow> chunk_num st' = length pre + length cs)"
  using assms
proof (induction cs arbitrary: st pre)
  case Nil
  then show ?case by (simp add: tracks_def)
next
  case (Cons c cs)
  let ?st1 = "st\<lparr>chunks_read := chunks_read st + 1, polls := polls st + 1\<rparr>"
  from Cons.prems(1) have t1: "tracks ?st1 pre" by (simp add: tracks_counters_irrelevant)
  from Cons.prems(1) have n: "chunk_num st = length pre" by (simp add: tracks_def)
  show ?case
  proof (cases "ev (polls st)")
    case True
    with t1 n show ?thesis by (auto simp: Let_def)
  next
    case False
    from Cons.prems(2) have c: "columns c \<noteq> []" "distinct (columns c)" by simp_all
    from analyze_tracks[OF t1 c] obtain st2 where
      a: "analyze_chunk ?st1 c = Inr st2" and t2: "tracks st2 (pre @ [c])" by blast
    from Cons.prems(2) have rest: "\<forall>c \<in> set cs. columns c \<noteq> [] \<and> distinct (columns c)" by simp
    from Cons.IH[OF t2 rest] obtain st' where
      l: "chunk_loop ev st2 cs = Inr st'"
      and lo: "length (pre @ [c]) \<le> chunk_num st'"
      and hi: "chunk_num st' \<le> length (pre @ [c]) + length cs"
      and t': "tracks st' ((pre @ [c]) @ take (chunk_num st' - length (pre @ [c])) cs)"
      and all: "(\<forall>i. \<not> ev i) \<longrightarrow> chunk_num st' = length (pre @ [c]) + length cs"
      by blast
    from lo have "chunk_num st' - length pre = Suc (chunk_num st' - length (pre @ [c]))" by simp
    then have "pre @ take (chunk_num st' - length pre) (c # cs)
                 = (pre @ [c]) @ take (chunk_num st' - length (pre @ [c])) cs" by simp
    with t' have "tracks st' (pre @ take (chunk_num st' - length pre) (c # cs))" by simp
    with l a False lo hi all show ?thesis by (simp add: Let_def)
  qed
qed

subsection \<open>Stopping\<close>
lemma analyze_chunk_counters:
  "analyze_chunk (st\<lparr>chunks_read := r, polls := p\<rparr>) c =
     (case analyze_chunk st c of Inl e \<Rightarrow> Inl e
      | Inr s \<Rightarrow> Inr (s\<lparr>chunks_read := r, polls := p\<rparr>))"
  by (simp add: analyze_chunk_def Let_def split: sum.splits)

lemma analyze_chunk_polls:
  "analyze_chunk st c = Inr st' \<Longrightarrow> polls st' = polls st \<and> chunks_read st' = chunks_read st"
  by (auto simp: analyze_chunk_def Let_def split: sum.splits if_splits)

lemma chunk_loop_stop:
  "j < length cs \<Longrightarrow> \<forall>i<j. \<not> ev (polls st + i) \<Longrightarrow> ev (polls st + j) \<Longrightarrow>
   chunk_loop ev st cs =
     (case chunk_loop (\<lambda>_. False) st (take j cs) of
        Inl e \<Rightarrow> Inl e
      | Inr s \<Rightarrow> Inr (s\<lparr>chunks_read := chunks_read s + 1, polls := polls s + 1\<rparr>))"
proof (induction cs arbitrary: st j)
  case Nil
  then show ?case by simp
next
  case (Cons c cs)
  let ?st1 = "st\<lparr>chunks_read := chunks_read st + 1, polls := polls st + 1\<rparr>"
  show ?case
  proof (cases j)
    case 0
    with Cons.prems show ?thesis by (simp add: Let_def)
  next
    case (Suc j')
    with Cons.prems have nev: "\<not> ev (polls st)" by auto
    show ?thesis
    proof (cases "analyze_chunk ?st1 c")
      case (Inl e)
      with nev Suc show ?thesis by (simp add: Let_def)
    next
      case (Inr st2)
      then have p2: "polls st2 = polls st + 1"
        using analyze_chunk_polls[of ?st1 c st2] by simp
      from Cons.prems Suc have a: "j' < length cs" by simp
      from Cons.prems(2) Suc p2 have b: "\<forall>i<j'. \<not> ev (polls st2 + i)"
        by (metis Suc_eq_plus1 Suc_less_eq add_Suc_shift)
      from Cons.prems(3) Suc p2 have c: "ev (polls st2 + j')" by simp
      from Cons.IH[OF a b c] Inr nev Suc show ?thesis by (simp add: Let_def)
    qed
  qed
qed

lemma chunk_loop_no_stop_counts:
  "chunk_loop (\<lambda>_. False) st cs = Inr st' \<Longrightarrow>
   polls st' = polls st + length cs \<and> chunks_read st' = chunks_read st + length cs"
proof (induction cs arbitrary: st)
  case Nil
  then show ?case by simp
next
  case (Cons c cs)
  let ?st1 = "st\<lparr>chunks_read := chunks_read st + 1, polls := polls st + 1\<rparr>"
  from Cons.prems obtain st2 where a: "analyze_chunk ?st1 c = Inr st2"
    and l: "chunk_loop (\<lambda>_. False) st2 cs = Inr st'"
    by (auto simp: Let_def split: sum.splits)
  from analyze_chunk_polls[OF a] Cons.IH[OF l] show ?case by simp
qed

subsection \<open>Chunks of a file\<close>

lemma concat_chunks_of: "0 < n \<Longrightarrow> concat (chunks_of n xs) = xs"
proof (induction n xs rule: chunks_of.induct)
  case (1 n xs)
  show ?case
  proof (cases "xs = []")
    case True
    then show ?thesis by (simp add: chunks_of.simps)
  next
    case False
    with 1 show ?thesis by (subst chunks_of.simps) simp
  qed
qed

lemma read_csv_ok:
  assumes "1 \<le> n" and "columns file \<noteq> []"
  shows "\<exists>cs. read_csv file n = Inr cs \<and> (\<forall>c \<in> set cs. columns c = columns file)
           \<and> concat (map rows cs) = rows file"
proof (cases "rows file = []")
  case True
  with assms show ?thesis by (simp add: read_csv_def)
next
  case False
  from assms(1) have "0 < nat n" by simp
  then have "concat (chunks_of (nat n) (rows file)) = rows file" by (rule concat_chunks_of)
  with assms False show ?thesis by (simp add: read_csv_def comp_def)
qed


lemma rows_seen_length: "rows_seen cs col = length (column_cells cs col)"
  by (induction cs) (auto simp: rows_seen_def column_cells_def getitem_def)

subsection \<open>Sums of counts\<close>

lemma tallies_keys: "tallies ctr cells \<Longrightarrow> fst ` set ctr = set (non_missing cells)"
proof -
  assume t: "tallies ctr cells"
  have "fst ` set ctr = dom (map_of ctr)" by (simp add: dom_map_of_conv_image_fst)
  also have "\<dots> = {k. k \<noteq> NaN \<and> k \<in> set cells}"
    using t by (auto simp: tallies_def dom_def)
  also have "\<dots> = set (non_missing cells)" by (auto simp: non_missing_def)
  finally show ?thesis .
qed

lemma tallies_sum:
  assumes t: "tallies ctr cells"
  shows "sum_list (map snd ctr) = int (length (non_missing cells))"
proof -
  from t have d: "distinct (map fst ctr)" by (simp add: tallies_def)
  have eq: "map snd ctr = map (\<lambda>k. int (count_list (non_missing cells) k)) (map fst ctr)"
  proof (simp, rule ballI)
    fix p assume p: "p \<in> set ctr"
    then have "map_of ctr (fst p) = Some (snd p)" using d by simp
    moreover have "fst p \<in> fst ` set ctr" using p by simp
    then have "fst p \<in> set (non_missing cells)" using tallies_keys[OF t] by simp
    then have "fst p \<noteq> NaN \<and> fst p \<in> set cells" by (simp add: non_missing_def)
    ultimately show "snd p = int (count_list (non_missing cells) (fst p))"
      using t by (simp add: tallies_def count_list_non_missing)
  qed
  have "sum_list (map snd ctr)
               = sum_list (map (\<lambda>k. int (count_list (non_missing cells) k)) (map fst ctr))"
    by (rule arg_cong[OF eq])
  also have "\<dots> = sum (\<lambda>k. int (count_list (non_missing cells) k)) (set (map fst ctr))"
    using d by (rule sum_list_distinct_conv_sum_set)
  also have "\<dots> = int (sum (count_list (non_missing cells)) (set (non_missing cells)))"
    using tallies_keys[OF t] by simp
  also have "\<dots> = int (length (non_missing cells))"
    by (simp add: sum_count_set)
  finally show ?thesis .
qed

subsection \<open>Missing cells, sums and the file as a whole\<close>

lemma non_missing_idem: "non_missing (non_missing cells) = non_missing cells"
  by (simp add: non_missing_def)

lemma value_counts_non_missing: "value_counts (non_missing series) = value_counts series"
  by (simp only: value_counts_alt non_missing_idem)

lemma merge_columns_cong:
  "columns c = columns c' \<Longrightarrow>
   \<forall>col. value_counts (getitem c col) = value_counts (getitem c' col) \<Longrightarrow>
   merge_columns c cols vc = merge_columns c' cols vc"
proof (induction cols arbitrary: vc)
  case Nil
  then show ?case by simp
next
  case (Cons x cols)
  from Cons.prems(2) have v: "value_counts (getitem c x) = value_counts (getitem c' x)" by blast
  show ?case
    using Cons.IH[OF Cons.prems] Cons.prems(1) v by (simp split: option.splits)
qed

lemma analyze_chunk_cong:
  assumes "columns c = columns c'"
    and "\<forall>col. non_missing (getitem c col) = non_missing (getitem c' col)"
  shows "analyze_chunk st c = analyze_chunk st c'"
proof -
  have "value_counts (getitem c col) = value_counts (getitem c' col)" for col
    using assms(2) value_counts_non_missing[of "getitem c col"]
      value_counts_non_missing[of "getitem c' col"] by metis
  then have v: "\<forall>col. value_counts (getitem c col) = value_counts (getitem c' col)" by blast
  have m: "\<And>cols vc. merge_columns c cols vc = merge_columns c' cols vc"
    using assms(1) v by (rule merge_columns_cong)
  show ?thesis unfolding analyze_chunk_def Let_def m assms(1) by (rule refl)
qed

lemma sound_no_NaN:
  "sound st \<Longrightarrow> (col, ctr) \<in> set (value_counters st) \<Longrightarrow> NaN \<notin> fst ` set ctr"
proof -
  assume s: "sound st" and m: "(col, ctr) \<in> set (value_counters st)"
  from s m have "good ctr" by (auto simp: sound_def list_all_iff)
  then have "\<forall>p \<in> set ctr. fst p \<noteq> NaN" by (auto simp: good_def list_all_iff)
  then show ?thesis by auto
qed

lemma tracks_sum:
  assumes "tracks st cs"
  shows "sum_list (map snd (counter_of st col)) = int (length (non_missing (column_cells cs col)))
         \<or> col \<notin> set (header st)"
proof (cases "col \<in> set (header st)")
  case True
  with assms have "tallies (counter_of st col) (column_cells cs col)"
    by (simp add: tracks_def list_all_iff)
  then show ?thesis by (simp add: tallies_sum)
next
  case False
  then show ?thesis by simp
qed

lemma aggregate_tracks:
  assumes "distinct (columns file)" "columns file \<noteq> []" "1 \<le> chunk_size"
  shows "\<exists>cs st. read_csv file chunk_size = Inr cs \<and> aggregate ev file chunk_size = Inr st
           \<and> (\<forall>c \<in> set cs. columns c = columns file) \<and> concat (map rows cs) = rows file
           \<and> chunk_num st \<le> length cs \<and> tracks st (take (chunk_num st) cs)
           \<and> ((\<forall>i. \<not> ev i) \<longrightarrow> chunk_num st = length cs)"
proof -
  from read_csv_ok[OF assms(3,2)] obtain cs where
    r: "read_csv file chunk_size = Inr cs" and c: "\<forall>c \<in> set cs. columns c = columns file"
    and cc: "concat (map rows cs) = rows file" by blast
  from c assms have "\<forall>c \<in> set cs. columns c \<noteq> [] \<and> distinct (columns c)" by simp
  from chunk_loop_tracks[OF tracks_initial this, of ev] obtain st where
    "chunk_loop ev initial cs = Inr st" "chunk_num st \<le> length cs"
    "tracks st (take (chunk_num st) cs)" "(\<forall>i. \<not> ev i) \<longrightarrow> chunk_num st = length cs"
    by auto
  with r c cc show ?thesis by (auto simp: aggregate_def)
qed

lemma tracks_header_empty:
  "tracks st cs \<Longrightarrow> col \<notin> set (header st) \<Longrightarrow> counter_of st col = []"
proof -
  assume t: "tracks st cs" and n: "col \<notin> set (header st)"
  from t have "map fst (value_counters st) = header st" by (simp add: tracks_def)
  then have "fst ` set (value_counters st) = set (header st)" by (metis set_map)
  with n have "map_of (value_counters st) col = None" by (simp add: map_of_eq_None_iff)
  then show ?thesis by (simp add: counter_of_def)
qed

lemma analyze_chunk_num:
  "analyze_chunk st c = Inr st' \<Longrightarrow> chunk_num st' = chunk_num st + 1"
  by (auto simp: analyze_chunk_def Let_def split: sum.splits if_splits)

lemma chunk_loop_no_stop_num:
  "chunk_loop (\<lambda>_. False) st cs = Inr st' \<Longrightarrow> chunk_num st' = chunk_num st + length cs"
proof (induction cs arbitrary: st)
  case Nil
  then show ?case by simp
next
  case (Cons c cs)
  let ?st1 = "st\<lparr>chunks_read := chunks_read st + 1, polls := polls st + 1\<rparr>"
  from Cons.prems obtain st2 where a: "analyze_chunk ?st1 c = Inr st2"
    and l: "chunk_loop (\<lambda>_. False) st2 cs = Inr st'"
    by (auto simp: Let_def split: sum.splits)
  from analyze_chunk_num[OF a] Cons.IH[OF l] show ?case by simp
qed

subsection \<open>The final counters of a file\<close>














subsection \<open>The layout of the report\<close>

lemma fold_append:
  "fold (\<lambda>x r. r @ g x) xs r0 = r0 @ concat (map g xs)"
  by (induction xs arbitrary: r0) simp_all

lemma generate_report_layout:
  "generate_report fmt fname now vcs top_n =
     report_header fname now top_n
       @ concat (map (column_section fmt top_n) (zip [0..<length vcs] vcs))"
proof -
  have l: "(\<lambda>(value, count) report.
               report @ ''  - Value: '' @ [CHR 0x27] @ str_cell fmt value
                 @ [CHR 0x27] @ '' | Count: '' @ str_int count @ ''\<newline>'')
           = (\<lambda>p report. report @ value_line fmt p)"
    by (rule ext, rule ext) (simp add: value_line_def case_prod_unfold)
  have step: "(\<lambda>(i, (col, counters)) report.
                 (let report = report @ ''--- Column '' @ str_nat (i + 1) @ '': '' @ [CHR 0x27]
                                 @ col @ [CHR 0x27] @ '' ---\<newline>''
                  in if counters = [] then report @ ''No values found.\<newline>\<newline>''
                     else fold (\<lambda>(value, count) report.
                                  report @ ''  - Value: '' @ [CHR 0x27] @ str_cell fmt value
                                    @ [CHR 0x27] @ '' | Count: '' @ str_int count @ ''\<newline>'')
                            (most_common counters top_n) report
                          @ ''\<newline>''))
             = (\<lambda>x r. r @ column_section fmt top_n x)"
  proof (rule ext, rule ext)
    fix x :: "nat \<times> string \<times> 'a cell counter" and r :: string
    obtain i col counters where x: "x = (i, col, counters)" by (cases x)
    show "(case x of (i, (col, counters)) \<Rightarrow> \<lambda>report.
                 (let report = report @ ''--- Column '' @ str_nat (i + 1) @ '': '' @ [CHR 0x27]
                                 @ col @ [CHR 0x27] @ '' ---\<newline>''
                  in if counters = [] then report @ ''No values found.\<newline>\<newline>''
                     else fold (\<lambda>(value, count) report.
                                  report @ ''  - Value: '' @ [CHR 0x27] @ str_cell fmt value
                                    @ [CHR 0x27] @ '' | Count: '' @ str_int count @ ''\<newline>'')
                            (most_common counters top_n) report
                          @ ''\<newline>'')) r
          = r @ column_section fmt top_n x"
      unfolding x l prod.case Let_def fold_append column_section_def section_title_def
        placeholder_def
      by simp
  qed
  show ?thesis
    unfolding generate_report_def
    unfolding step
    unfolding Let_def fold_append
    by (simp add: report_header_def)
qed



subsection \<open>The estimate and the validation\<close>





lemma str_int_10: "str_int 10 = ''10''"
  by (simp add: str_int_def str_nat.simps)

lemma str_int_9000: "str_int 9000 = ''9000''"
  by (simp add: str_int_def str_nat.simps)

section \<open>The properties of the specification\<close>

text \<open>
  C10. After every update of the aggregation, every count stored in every column's
  counter is strictly positive, and no count decreases: from any state \<open>st\<close> that the loop
  reaches, analysing one more chunk succeeds, the counts before and after are all
  positive, and every value's count after the update is at least its count before.
\<close>

theorem counts_positive_and_growing:
  assumes "chunk_loop ev initial cs = Inr st"
  shows "\<exists>st'. analyze_chunk st chunk = Inr st'
           \<and> positive_counts (value_counters st) \<and> positive_counts (value_counters st')
           \<and> (\<forall>col k. counter_get (counter_of st col) k \<le> counter_get (counter_of st' col) k)"
proof -
  from chunk_loop_sound[OF sound_initial, of ev cs] assms have s: "sound st" by auto
  have pos: "positive_counts (value_counters s)" if "sound s" for s :: "'a state"
    using that by (auto simp: sound_def positive_counts_def good_def list_all_iff)
  from analyze_sound[OF s, of chunk] obtain st' where
    "analyze_chunk st chunk = Inr st'" "sound st'"
    "\<forall>col k. counter_get (counter_of st col) k \<le> counter_get (counter_of st' col) k"
    by blast
  with pos[OF s] pos[of st'] show ?thesis by blast
qed

theorem counts_positive_and_growing_witness:
  "chunk_loop (\<lambda>_. False) initial [small_file] = Inr small_state \<and>
   (\<exists>st'. analyze_chunk small_state small_file = Inr st'
           \<and> positive_counts (value_counters small_state) \<and> positive_counts (value_counters st')
           \<and> (\<forall>col k. counter_get (counter_of small_state col) k
                          \<le> counter_get (counter_of st' col) k))"
proof -
  have h: "chunk_loop (\<lambda>_. False) initial [small_file] = Inr small_state"
    by code_simp
  from counts_positive_and_growing[OF h, of small_file] h show ?thesis by simp
qed

text \<open>
  C9. Cells holding the missing-value marker are never entered into a column's counter
  and add nothing to any count: the distribution of a chunk's column is computed from its
  non-missing cells only and has no entry for the marker; two chunks with the same header
  whose columns agree on their non-missing cells update any state alike; and no counter
  of a state the loop reaches has the marker as a key.
\<close>

theorem missing_cells_never_counted:
  "value_counts series = value_counts (non_missing series)
   \<and> NaN \<notin> fst ` set (value_counts series)
   \<and> (columns c = columns c'
        \<and> (\<forall>col. non_missing (getitem c col) = non_missing (getitem c' col))
        \<longrightarrow> analyze_chunk st c = analyze_chunk st c')
   \<and> (chunk_loop ev initial cs = Inr st'
        \<longrightarrow> list_all (\<lambda>(col, ctr). NaN \<notin> fst ` set ctr) (value_counters st'))"
proof (intro conjI impI allI)
  show "value_counts series = value_counts (non_missing series)"
    by (simp add: value_counts_non_missing)
  show "NaN \<notin> fst ` set (value_counts series)"
    by (simp add: value_counts_keys_set non_missing_def)
next
  assume "columns c = columns c' \<and> (\<forall>col. non_missing (getitem c col) = non_missing (getitem c' col))"
  then show "analyze_chunk st c = analyze_chunk st c'"
    using analyze_chunk_cong[of c c' st] by blast
next
  assume l: "chunk_loop ev initial cs = Inr st'"
  from chunk_loop_sound[OF sound_initial, of ev cs] l have "sound st'" by auto
  then show "list_all (\<lambda>(col, ctr). NaN \<notin> fst ` set ctr) (value_counters st')"
    using sound_no_NaN[of st'] by (auto simp: list_all_iff)
qed

theorem missing_cells_never_counted_witness:
  "columns small_file = columns small_file_short
   \<and> (\<forall>col. non_missing (getitem small_file col) = non_missing (getitem small_file_short col))
   \<and> analyze_chunk initial small_file = analyze_chunk initial small_file_short
   \<and> chunk_loop (\<lambda>_. False) initial [small_file] = Inr small_state
   \<and> list_all (\<lambda>(col, ctr). NaN \<notin> fst ` set ctr) (value_counters small_state)"
proof -
  have a: "columns small_file = columns small_file_short"
    by (simp add: small_file_def small_file_short_def)
  have b: "\<forall>col. non_missing (getitem small_file col) = non_missing (getitem small_file_short col)"
    by (simp add: small_file_def small_file_short_def getitem_def cell_at_def non_missing_def)
  have c: "chunk_loop (\<lambda>_. False) initial [small_file] = Inr small_state"
    by code_simp
  from missing_cells_never_counted[of "[]" small_file small_file_short initial "\<lambda>_. False"
      "[small_file]" small_state] a b c
  show ?thesis by blast
qed

text \<open>
  C3, as amended. At every chunk boundary, at completion and at cancellation, for every
  chunk size from 1 on, the sum of the counts in a column's counter equals the number of
  non-missing cells of that column in the chunks merged so far; it equals the number of
  rows seen when the column has no missing cell. The run may have been cancelled at any
  chunk boundary: \<open>ev\<close> is arbitrary and \<open>chunk_num st\<close> chunks have been merged.
\<close>

theorem sum_of_counts_is_non_missing_cells:
  assumes "distinct (columns file)" and "columns file \<noteq> []" and "1 \<le> chunk_size"
  shows "\<exists>cs st. read_csv file chunk_size = Inr cs \<and> aggregate ev file chunk_size = Inr st
           \<and> chunk_num st \<le> length cs
           \<and> ((\<forall>i. \<not> ev i) \<longrightarrow> chunk_num st = length cs)
           \<and> header st = (if chunk_num st = 0 then [] else columns file)
           \<and> (\<forall>col. sum_list (map snd (counter_of st col)) =
                  (if col \<in> set (header st)
                   then int (length (non_missing (column_cells (take (chunk_num st) cs) col)))
                   else 0))
           \<and> (\<forall>col \<in> set (header st).
                  NaN \<notin> set (column_cells (take (chunk_num st) cs) col) \<longrightarrow>
                  sum_list (map snd (counter_of st col))
                    = int (rows_seen (take (chunk_num st) cs) col))"
proof -
  from aggregate_tracks[OF assms, of ev] obtain cs st where
    r: "read_csv file chunk_size = Inr cs" and a: "aggregate ev file chunk_size = Inr st"
    and c: "\<forall>c \<in> set cs. columns c = columns file"
    and n: "chunk_num st \<le> length cs" and t: "tracks st (take (chunk_num st) cs)"
    and all: "(\<forall>i. \<not> ev i) \<longrightarrow> chunk_num st = length cs" by blast
  let ?done = "take (chunk_num st) cs"
  have h: "header st = (if chunk_num st = 0 then [] else columns file)"
  proof (cases "?done")
    case Nil
    with t n show ?thesis by (auto simp: tracks_def)
  next
    case (Cons x xs)
    then have "x \<in> set cs" by (metis in_set_takeD list.set_intros(1))
    with c have "columns x = columns file" by simp
    moreover have "chunk_num st \<noteq> 0"
    proof
      assume "chunk_num st = 0"
      then have "take (chunk_num st) cs = []" by simp
      with Cons show False by simp
    qed
    ultimately show ?thesis using t Cons by (auto simp: tracks_def)
  qed
  have s: "sum_list (map snd (counter_of st col)) =
             (if col \<in> set (header st)
              then int (length (non_missing (column_cells ?done col))) else 0)" for col
    using tracks_sum[OF t, of col] tracks_header_empty[OF t, of col] by auto
  have f: "sum_list (map snd (counter_of st col)) = int (rows_seen ?done col)"
    if "col \<in> set (header st)" "NaN \<notin> set (column_cells ?done col)" for col
  proof -
    from that(2) have "non_missing (column_cells ?done col) = column_cells ?done col"
      by (auto simp: non_missing_def filter_id_conv)
    with s[of col] that(1) show ?thesis by (simp add: rows_seen_length)
  qed
  from r a n all h s f show ?thesis by blast
qed

theorem sum_of_counts_is_non_missing_cells_witness:
  "distinct (columns small_file) \<and> columns small_file \<noteq> [] \<and> (1::int) \<le> 500 \<and>
   (\<exists>cs st. read_csv small_file 500 = Inr cs \<and> aggregate (\<lambda>_. False) small_file 500 = Inr st
           \<and> chunk_num st \<le> length cs
           \<and> ((\<forall>i. \<not> (\<lambda>_. False) i) \<longrightarrow> chunk_num st = length cs)
           \<and> header st = (if chunk_num st = 0 then [] else columns small_file)
           \<and> (\<forall>col. sum_list (map snd (counter_of st col)) =
                  (if col \<in> set (header st)
                   then int (length (non_missing (column_cells (take (chunk_num st) cs) col)))
                   else 0))
           \<and> (\<forall>col \<in> set (header st).
                  NaN \<notin> set (column_cells (take (chunk_num st) cs) col) \<longrightarrow>
                  sum_list (map snd (counter_of st col))
                    = int (rows_seen (take (chunk_num st) cs) col)))"
proof -
  have a: "distinct (columns small_file)" and b: "columns small_file \<noteq> []"
    by (simp_all add: small_file_def)
  have c: "(1::int) \<le> 500" by simp
  from sum_of_counts_is_non_missing_cells[OF a b c, of "\<lambda>_. False"] a b c
  show ?thesis by blast
qed

text \<open>
  C3 as stated fails: a file of three rows whose column \<open>Status\<close> has one missing cell
  ends with counts summing to 2 for that column, while 3 rows were processed.
\<close>

theorem sum_of_counts_is_not_rows_counterexample:
  "read_csv small_file 500 = Inr [small_file]
   \<and> aggregate (\<lambda>_. False) small_file 500 = Inr small_state
   \<and> sum_list (map snd (counter_of small_state ''Status'')) = 2
   \<and> rows_seen (take (chunk_num small_state) [small_file]) ''Status'' = 3"
  by code_simp

text \<open>
  C4. Let the flag be clear at the first \<open>j\<close> checks of the loop and set from then on,
  with \<open>j\<close> less than the number of chunks. Then the loop ends at its check number \<open>j\<close>:
  the state is the one after merging exactly the first \<open>j\<close> chunks, \<open>j + 1\<close> chunks have
  been taken from the reader (the last of them is dropped unmerged, none is taken after
  it), no report is generated and the run ends with the stopped text and
  \<open>success = False\<close>.
\<close>

theorem cancellation_stops_at_once:
  assumes "read_csv file chunk_size = Inr cs" and "j < length cs"
    and "\<forall>i<j. \<not> ev i" and "\<forall>i\<ge>j. ev i"
  shows "\<exists>s. chunk_loop (\<lambda>_. False) initial (take j cs) = Inr s
           \<and> chunk_num s = j \<and> chunks_read s = j
           \<and> aggregate ev file chunk_size = Inr (s\<lparr>chunks_read := j + 1, polls := j + 1\<rparr>)
           \<and> process_csv_thread fmt fname now ev file top_n chunk_size
               = Inr \<lparr>report_content = ''Processing was stopped before completion.'',
                      success = False\<rparr>"
proof -
  from chunk_loop_sound[OF sound_initial, of "\<lambda>_. False" "take j cs"] obtain s where
    s: "chunk_loop (\<lambda>_. False) initial (take j cs) = Inr s" by blast
  from assms(2) have len: "length (take j cs) = j" by simp
  from chunk_loop_no_stop_num[OF s] len have n: "chunk_num s = j" by (simp add: initial_def)
  from chunk_loop_no_stop_counts[OF s] len
  have p: "polls s = j" "chunks_read s = j" by (simp_all add: initial_def)
  have "chunk_loop ev initial cs =
          (case chunk_loop (\<lambda>_. False) initial (take j cs) of
             Inl e \<Rightarrow> Inl e
           | Inr s \<Rightarrow> Inr (s\<lparr>chunks_read := chunks_read s + 1, polls := polls s + 1\<rparr>))"
    using assms(2,3,4) by (intro chunk_loop_stop) (simp_all add: initial_def)
  with s p have l: "chunk_loop ev initial cs = Inr (s\<lparr>chunks_read := j + 1, polls := j + 1\<rparr>)"
    by simp
  with assms(1) have a: "aggregate ev file chunk_size = Inr (s\<lparr>chunks_read := j + 1, polls := j + 1\<rparr>)"
    by (simp add: aggregate_def)
  from assms(4) have "ev (j + 1)" "ev (j + 1 + 1)" by simp_all
  with a have "process_csv_thread fmt fname now ev file top_n chunk_size
               = Inr \<lparr>report_content = ''Processing was stopped before completion.'',
                      success = False\<rparr>"
    by (simp add: process_csv_thread_def)
  with s n p a show ?thesis by blast
qed

theorem cancellation_stops_at_once_witness:
  "read_csv tie_file 500 = Inr tie_chunks \<and>
   (\<exists>s. chunk_loop (\<lambda>_. False) initial (take 1 tie_chunks) = Inr s
        \<and> chunk_num s = 1 \<and> chunks_read s = 1
        \<and> aggregate (\<lambda>i. 1 \<le> i) tie_file 500 = Inr (s\<lparr>chunks_read := 1 + 1, polls := 1 + 1\<rparr>)
        \<and> process_csv_thread id ''data.csv'' ''2025-07-13 12:00:00'' (\<lambda>i. 1 \<le> i) tie_file 10 500
            = Inr \<lparr>report_content = ''Processing was stopped before completion.'',
                   success = False\<rparr>)"
proof -
  have r: "read_csv tie_file 500 = Inr tie_chunks"
    by code_simp
  have j: "1 < length tie_chunks" by (simp add: tie_chunks_def)
  have before: "\<forall>i<1. \<not> (\<lambda>i::nat. 1 \<le> i) i" by simp
  have after: "\<forall>i\<ge>1. (\<lambda>i::nat. 1 \<le> i) i" by simp
  from cancellation_stops_at_once[OF r j before after, of id "''data.csv''"
      "''2025-07-13 12:00:00''" 10] r
  show ?thesis by simp
qed








text \<open>
  C8 as stated fails: with the same counters and the same top-N, two invocations one
  second apart give different texts, since the header carries the clock reading.
\<close>

theorem report_differs_by_clock_counterexample:
  "generate_report id ''data.csv'' ''2025-07-13 12:00:00'' status_counters 2
     \<noteq> generate_report id ''data.csv'' ''2025-07-13 12:00:01'' status_counters 2"
  by code_simp

text \<open>
  C8, as amended. The report of an invocation is its own header block (file name, clock
  reading, top-N) followed by what any other invocation with the same counters and the
  same top-N writes after its header: apart from the file name and the date in the
  header, the text is determined by the counters and top-N.
\<close>

theorem report_depends_on_maps_and_top_n:
  "generate_report fmt fname now vcs top_n
     = report_header fname now top_n
         @ drop (length (report_header fname' now' top_n))
             (generate_report fmt fname' now' vcs top_n)"
  by (simp add: generate_report_layout)

theorem report_depends_on_maps_and_top_n_witness:
  "generate_report id ''data.csv'' ''2025-07-13 12:00:00'' status_counters 2
     = report_header ''data.csv'' ''2025-07-13 12:00:00'' 2
         @ drop (length (report_header ''other.csv'' ''2025-07-14 08:30:00'' 2))
             (generate_report id ''other.csv'' ''2025-07-14 08:30:00'' status_counters 2)"
  by (rule report_depends_on_maps_and_top_n)




text \<open>
  C7. A text that \<^verbatim>\<open>int\<close> parses to a number above 0 is returned as the top-N, and one
  that parses to a number of at least 500 as the chunk size, without warning and with the
  field unchanged; every other text gives the default (10, respectively 9000) with a
  warning, and the default is written back to the field. The result is always a usable
  number, and the text \<open>abc\<close> gives the top-N 10.
\<close>

theorem validation_falls_back:
  "(\<forall>n. py_int top_n_var = Some n \<and> 0 < n \<longrightarrow>
        validate_top_n top_n_var = \<lparr>number = n, warning = None, field = top_n_var\<rparr>)
   \<and> ((\<forall>n. py_int top_n_var = Some n \<longrightarrow> n \<le> 0) \<longrightarrow>
        validate_top_n top_n_var =
          \<lparr>number = 10, warning = Some ''Top N is invalid. Using default: 10.'', field = ''10''\<rparr>)
   \<and> (\<forall>n. py_int chunk_size_var = Some n \<and> 500 \<le> n \<longrightarrow>
        validate_chunk_size chunk_size_var =
          \<lparr>number = n, warning = None, field = chunk_size_var\<rparr>)
   \<and> ((\<forall>n. py_int chunk_size_var = Some n \<longrightarrow> n < 500) \<longrightarrow>
        validate_chunk_size chunk_size_var =
          \<lparr>number = 9000, warning = Some ''Chunk size is invalid. Using default: 9000.'',
           field = ''9000''\<rparr>)
   \<and> 0 < number (validate_top_n top_n_var)
   \<and> 500 \<le> number (validate_chunk_size chunk_size_var)
   \<and> py_int ''abc'' = None
   \<and> number (validate_top_n ''abc'') = 10"
proof -
  have abc: "py_int ''abc'' = None" by code_simp
  have t: "validate_top_n v =
             (case py_int v of
                None \<Rightarrow> \<lparr>number = 10, warning = Some ''Top N is invalid. Using default: 10.'',
                          field = ''10''\<rparr>
              | Some n \<Rightarrow> if 0 < n then \<lparr>number = n, warning = None, field = v\<rparr>
                          else \<lparr>number = 10,
                                warning = Some ''Top N is invalid. Using default: 10.'',
                                field = ''10''\<rparr>)" for v
    by (simp add: validate_top_n_def DEFAULT_TOP_N_def str_int_10 Let_def split: option.splits)
  have c: "validate_chunk_size v =
             (case py_int v of
                None \<Rightarrow> \<lparr>number = 9000,
                          warning = Some ''Chunk size is invalid. Using default: 9000.'',
                          field = ''9000''\<rparr>
              | Some n \<Rightarrow> if 500 \<le> n then \<lparr>number = n, warning = None, field = v\<rparr>
                          else \<lparr>number = 9000,
                                warning = Some ''Chunk size is invalid. Using default: 9000.'',
                                field = ''9000''\<rparr>)" for v
    by (simp add: validate_chunk_size_def CHUNK_SIZE_DEFAULT_def MIN_CHUNK_SIZE_def
        str_int_9000 Let_def split: option.splits)
  have t1: "\<forall>n. py_int top_n_var = Some n \<and> 0 < n \<longrightarrow>
        validate_top_n top_n_var = \<lparr>number = n, warning = None, field = top_n_var\<rparr>"
    by (simp add: t)
  have t2: "(\<forall>n. py_int top_n_var = Some n \<longrightarrow> n \<le> 0) \<longrightarrow>
        validate_top_n top_n_var =
          \<lparr>number = 10, warning = Some ''Top N is invalid. Using default: 10.'', field = ''10''\<rparr>"
    by (cases "py_int top_n_var") (simp_all add: t)
  have c1: "\<forall>n. py_int chunk_size_var = Some n \<and> 500 \<le> n \<longrightarrow>
        validate_chunk_size chunk_size_var =
          \<lparr>number = n, warning = None, field = chunk_size_var\<rparr>"
    by (simp add: c)
  have c2: "(\<forall>n. py_int chunk_size_var = Some n \<longrightarrow> n < 500) \<longrightarrow>
        validate_chunk_size chunk_size_var =
          \<lparr>number = 9000, warning = Some ''Chunk size is invalid. Using default: 9000.'',
           field = ''9000''\<rparr>"
    by (cases "py_int chunk_size_var") (simp_all add: c)
  have t3: "0 < number (validate_top_n top_n_var)"
    by (cases "py_int top_n_var") (simp_all add: t)
  have c3: "500 \<le> number (validate_chunk_size chunk_size_var)"
    by (cases "py_int chunk_size_var") (simp_all add: c)
  have t4: "number (validate_top_n ''abc'') = 10"
    by (simp add: t abc)
  show ?thesis by (intro conjI) (rule t1 t2 c1 c2 t3 c3 abc t4)+
qed

theorem validation_falls_back_witness:
  "py_int '' 25 '' = Some 25
   \<and> validate_top_n '' 25 '' = \<lparr>number = 25, warning = None, field = '' 25 ''\<rparr>
   \<and> py_int ''499'' = Some 499
   \<and> validate_chunk_size ''499'' =
        \<lparr>number = 9000, warning = Some ''Chunk size is invalid. Using default: 9000.'',
         field = ''9000''\<rparr>
   \<and> number (validate_top_n ''abc'') = 10"
proof -
  have a: "py_int '' 25 '' = Some 25" by code_simp
  have b: "py_int ''499'' = Some 499" by code_simp
  note v = validation_falls_back[of "'' 25 ''" "''499''"]
  from v a have c: "validate_top_n '' 25 '' = \<lparr>number = 25, warning = None, field = '' 25 ''\<rparr>"
    by simp
  from v b have d: "validate_chunk_size ''499'' =
        \<lparr>number = 9000, warning = Some ''Chunk size is invalid. Using default: 9000.'',
         field = ''9000''\<rparr>"
    by simp
  from v have e: "number (validate_top_n ''abc'') = 10"
    by (elim conjE)
  show ?thesis by (intro conjI) (rule a b c d e)+
qed

end
